theory Spec2Isabelle
  imports Main "HOL-Library.AList"
begin

section \<open>The relay of \<^verbatim>\<open>src/barkr/main.py\<close>\<close>

text \<open>
  The class \<^verbatim>\<open>Barkr\<close> holds a fixed list of connections, a polling interval and a
  dictionary from connection names to lists of pending messages. Its methods
  \<^verbatim>\<open>read\<close> and \<^verbatim>\<open>write\<close> are one pass each over the connections; \<^verbatim>\<open>start\<close> runs both
  forever in two threads through \<^verbatim>\<open>wrap_while_true\<close>, which lives in another module.

  Messages are opaque: the type variable \<open>'m\<close>. The connections are collaborators with
  a state of their own (network, watermarks). That state is the type variable \<open>'w\<close>,
  and a call of \<^verbatim>\<open>connection.read()\<close> or \<^verbatim>\<open>connection.write(messages)\<close> takes it and
  returns it changed, together with either the exception raised or the value returned.
\<close>

subsection \<open>Data\<close>

datatype ConnectionMode = READ | WRITE

datatype error = ValueError string | KeyError string | ConnectionError string

record ('m, 'w) Connection =
  name :: string
  modes :: "ConnectionMode set"
  read :: "'w \<Rightarrow> (error + 'm list) \<times> 'w"
  write' :: "'m list \<Rightarrow> 'w \<Rightarrow> (error + unit) \<times> 'w"

text \<open>
  The field \<open>write'\<close> is the method \<^verbatim>\<open>write\<close>: the plain name is a command of the
  proof language.
\<close>

text \<open>
  A Python dictionary keeps its keys in insertion order and holds each key once. It is
  an association list here: \<open>map_of\<close> reads a key, \<open>AList.update\<close> is the assignment
  \<^verbatim>\<open>d[k] = v\<close> (in place when the key is present, at the end otherwise).
\<close>

type_synonym 'm queues = "(string \<times> 'm list) list"

record ('m, 'w) Barkr =
  polling_interval :: int
  connections :: "('m, 'w) Connection list"
  message_queues :: "'m queues"

text \<open>
  What a method sees while it runs: the object, the state of the collaborators, and
  the calls made on connections so far. The log of calls is only observed, no branch
  of the code reads it.
\<close>

datatype 'm call = ReadCall string | WriteCall string "'m list"

record ('m, 'w) run = "('m, 'w) Barkr" +
  world :: 'w
  calls :: "'m call list"

text \<open>
  A method either returns, leaving a state (\<open>Inr\<close>), or raises, leaving the state
  reached so far together with the exception (\<open>Inl\<close>): what was assigned before a
  \<^verbatim>\<open>raise\<close> stays assigned.
\<close>

type_synonym ('m, 'w) outcome = "(error \<times> ('m, 'w) run) + ('m, 'w) run"

fun final :: "('m, 'w) outcome \<Rightarrow> ('m, 'w) run" where
  "final (Inl (e, s)) = s"
| "final (Inr s) = s"

subsection \<open>Construction: \<^verbatim>\<open>Barkr.__init__\<close>\<close>

text \<open>
  The dictionary comprehension \<^verbatim>\<open>{connection.name: [] for connection in connections}\<close>
  assigns \<^verbatim>\<open>[]\<close> to each name in list order.
\<close>

definition empty_queues :: "('m, 'w) Connection list \<Rightarrow> 'm queues" where
  "empty_queues cs = foldl (\<lambda>d c. AList.update (name c) [] d) [] cs"

definition Barkr_init :: "('m, 'w) Connection list \<Rightarrow> int \<Rightarrow> error + ('m, 'w) Barkr" where
  "Barkr_init cs interval =
     (if cs = [] then Inl (ValueError ''Must provide at least one connection!'')
      else Inr \<lparr>polling_interval = interval, connections = cs,
                message_queues = empty_queues cs\<rparr>)"

text \<open>The state in which a method of a constructed object starts.\<close>

definition start_run :: "('m, 'w) Barkr \<Rightarrow> 'w \<Rightarrow> ('m, 'w) run" where
  "start_run b w = \<lparr>polling_interval = polling_interval b, connections = connections b,
                    message_queues = message_queues b, world = w, calls = []\<rparr>"

subsection \<open>One pass of the reader: \<^verbatim>\<open>Barkr.read\<close>\<close>

text \<open>
  Lines 62 to 71, the block under the lock: every queue whose key is not the source's
  name is extended in place by the messages.
\<close>

definition fan_out :: "string \<Rightarrow> 'm list \<Rightarrow> 'm queues \<Rightarrow> 'm queues" where
  "fan_out src messages qs =
     map (\<lambda>(n, q). if n \<noteq> src then (n, q @ messages) else (n, q)) qs"

text \<open>The body of the loop for one connection, lines 55 to 71.\<close>

definition read_slot :: "('m, 'w) Connection \<Rightarrow> ('m, 'w) run \<Rightarrow> ('m, 'w) outcome" where
  "read_slot c s =
     (if READ \<notin> modes c then Inr s
      else
        (case read c (world s) of
           (Inl e, w') \<Rightarrow> Inl (e, s\<lparr>world := w', calls := calls s @ [ReadCall (name c)]\<rparr>)
         | (Inr messages, w') \<Rightarrow>
             (let s' = s\<lparr>world := w', calls := calls s @ [ReadCall (name c)]\<rparr>
              in if messages \<noteq> []
                 then Inr (s'\<lparr>message_queues := fan_out (name c) messages (message_queues s')\<rparr>)
                 else Inr s')))"

text \<open>The loop: an exception leaves it at once, nothing in the method catches it.\<close>

fun read_loop :: "('m, 'w) Connection list \<Rightarrow> ('m, 'w) run \<Rightarrow> ('m, 'w) outcome" where
  "read_loop [] s = Inr s"
| "read_loop (c # cs) s =
     (case read_slot c s of Inl r \<Rightarrow> Inl r | Inr s' \<Rightarrow> read_loop cs s')"

definition Barkr_read :: "('m, 'w) run \<Rightarrow> ('m, 'w) outcome" where
  "Barkr_read s = read_loop (connections s) s"

subsection \<open>One pass of the writer: \<^verbatim>\<open>Barkr.write\<close>\<close>

text \<open>
  Lines 80 to 90, the first block under the lock. Reading a key that the dictionary
  does not hold raises \<^verbatim>\<open>KeyError\<close>. The queue itself is not assigned here.
\<close>

definition take_and_write :: "('m, 'w) Connection \<Rightarrow> ('m, 'w) run \<Rightarrow> ('m, 'w) outcome" where
  "take_and_write c s =
     (if WRITE \<in> modes c then
        (case map_of (message_queues s) (name c) of
           None \<Rightarrow> Inl (KeyError (name c), s)
         | Some messages \<Rightarrow>
             if messages \<noteq> [] then
               (case write' c messages (world s) of
                  (Inl e, w') \<Rightarrow>
                    Inl (e, s\<lparr>world := w', calls := calls s @ [WriteCall (name c) messages]\<rparr>)
                | (Inr u, w') \<Rightarrow>
                    Inr (s\<lparr>world := w', calls := calls s @ [WriteCall (name c) messages]\<rparr>))
             else Inr s)
      else Inr s)"

text \<open>Lines 93 and 94, the second block under the lock.\<close>

definition clear_queue :: "('m, 'w) Connection \<Rightarrow> ('m, 'w) run \<Rightarrow> ('m, 'w) run" where
  "clear_queue c s = s\<lparr>message_queues := AList.update (name c) [] (message_queues s)\<rparr>"

text \<open>The body of the loop for one connection, lines 79 to 94.\<close>

definition write_slot :: "('m, 'w) Connection \<Rightarrow> ('m, 'w) run \<Rightarrow> ('m, 'w) outcome" where
  "write_slot c s =
     (case take_and_write c s of Inl r \<Rightarrow> Inl r | Inr s' \<Rightarrow> Inr (clear_queue c s'))"

fun write_loop :: "('m, 'w) Connection list \<Rightarrow> ('m, 'w) run \<Rightarrow> ('m, 'w) outcome" where
  "write_loop [] s = Inr s"
| "write_loop (c # cs) s =
     (case write_slot c s of Inl r \<Rightarrow> Inl r | Inr s' \<Rightarrow> write_loop cs s')"

definition Barkr_write :: "('m, 'w) run \<Rightarrow> ('m, 'w) outcome" where
  "Barkr_write s = write_loop (connections s) s"

subsection \<open>Passes in sequence\<close>

text \<open>
  Modelled from the spec: the wrapper \<^verbatim>\<open>wrap_while_true\<close> is defined in the module
  \<^verbatim>\<open>barkr.utils\<close>, not in \<^verbatim>\<open>main.py\<close>. By the specification it runs one pass, catches
  and logs whatever the pass raises, sleeps, and repeats. So after a pass the relay goes
  on from the state the pass left, raised or not: \<open>final\<close>. Between passes the
  collaborators may change on their own (\<open>Outside\<close>).
\<close>

datatype 'w tick = ReadTick | WriteTick | Outside 'w

fun run_ticks :: "'w tick list \<Rightarrow> ('m, 'w) run \<Rightarrow> ('m, 'w) run" where
  "run_ticks [] s = s"
| "run_ticks (ReadTick # ts) s = run_ticks ts (final (Barkr_read s))"
| "run_ticks (WriteTick # ts) s = run_ticks ts (final (Barkr_write s))"
| "run_ticks (Outside w # ts) s = run_ticks ts (s\<lparr>world := w\<rparr>)"

subsection \<open>The two threads and the lock\<close>

text \<open>
  \<^verbatim>\<open>start\<close> runs \<^verbatim>\<open>read\<close> and \<^verbatim>\<open>write\<close> in two threads. Every access to the dictionary is
  inside a \<^verbatim>\<open>with self.message_queues_lock\<close> block, so the blocks are the atomic steps
  of an execution. The reader has one block per connection (lines 62 to 71), entered
  after \<^verbatim>\<open>connection.read()\<close>, which touches no state of the relay: a step of the
  reader is that call together with its block. The writer has two blocks per
  connection, lines 81 to 90 and lines 93 to 94, and releases the lock between them:
  they are two steps. Every sequence of steps that keeps the order of each thread is
  an execution of the program. A sequence is followed up to the first exception.
\<close>

datatype ('m, 'w) step =
  Reader_slot "('m, 'w) Connection"
| Writer_take "('m, 'w) Connection"
| Writer_clear "('m, 'w) Connection"

fun do_step :: "('m, 'w) step \<Rightarrow> ('m, 'w) run \<Rightarrow> ('m, 'w) outcome" where
  "do_step (Reader_slot c) s = read_slot c s"
| "do_step (Writer_take c) s = take_and_write c s"
| "do_step (Writer_clear c) s = Inr (clear_queue c s)"

fun run_steps :: "('m, 'w) step list \<Rightarrow> ('m, 'w) run \<Rightarrow> ('m, 'w) outcome" where
  "run_steps [] s = Inr s"
| "run_steps (a # as) s =
     (case do_step a s of Inl r \<Rightarrow> Inl r | Inr s' \<Rightarrow> run_steps as s')"

text \<open>The steps of one pass of each thread, in program order.\<close>

definition reader_steps :: "('m, 'w) Connection list \<Rightarrow> ('m, 'w) step list" where
  "reader_steps cs = map Reader_slot cs"

definition writer_steps :: "('m, 'w) Connection list \<Rightarrow> ('m, 'w) step list" where
  "writer_steps cs = concat (map (\<lambda>c. [Writer_take c, Writer_clear c]) cs)"

subsection \<open>Observations on the log of calls\<close>

text \<open>The batches passed to \<^verbatim>\<open>write\<close> of the connection named \<open>n\<close>, in call order.\<close>

fun writes_to :: "string \<Rightarrow> 'm call list \<Rightarrow> 'm list list" where
  "writes_to n [] = []"
| "writes_to n (ReadCall n' # xs) = writes_to n xs"
| "writes_to n (WriteCall n' q # xs) =
     (if n' = n then q # writes_to n xs else writes_to n xs)"

text \<open>The names on which \<^verbatim>\<open>read\<close> was called, in call order.\<close>

fun reads_of :: "'m call list \<Rightarrow> string list" where
  "reads_of [] = []"
| "reads_of (ReadCall n # xs) = n # reads_of xs"
| "reads_of (WriteCall n q # xs) = reads_of xs"

subsection \<open>Connections for concrete runs\<close>

text \<open>
  Messages are strings and the state of the collaborators is a counter of the calls of
  \<^verbatim>\<open>write\<close> on the failing connection. \<open>conn_A\<close> and \<open>conn_B\<close> read and write,
  \<open>conn_C\<close> only writes (its \<^verbatim>\<open>read\<close> would return a message if it were called),
  \<open>conn_R\<close> only reads, and \<open>conn_D\<close> fails: its \<^verbatim>\<open>read\<close> always raises and its
  \<^verbatim>\<open>write\<close> raises at the first call.
\<close>

definition conn_A :: "(string, nat) Connection" where
  "conn_A = \<lparr>name = ''A'', modes = {READ, WRITE},
             read = (\<lambda>w. (Inr [''m1''], w)), write' = (\<lambda>ms w. (Inr (), w))\<rparr>"

definition conn_B :: "(string, nat) Connection" where
  "conn_B = \<lparr>name = ''B'', modes = {READ, WRITE},
             read = (\<lambda>w. (Inr [], w)), write' = (\<lambda>ms w. (Inr (), w))\<rparr>"

definition conn_C :: "(string, nat) Connection" where
  "conn_C = \<lparr>name = ''C'', modes = {WRITE},
             read = (\<lambda>w. (Inr [''c1''], w)), write' = (\<lambda>ms w. (Inr (), w))\<rparr>"

definition conn_R :: "(string, nat) Connection" where
  "conn_R = \<lparr>name = ''R'', modes = {READ},
             read = (\<lambda>w. (Inr [''r1'', ''r2''], w)), write' = (\<lambda>ms w. (Inr (), w))\<rparr>"

definition conn_D :: "(string, nat) Connection" where
  "conn_D = \<lparr>name = ''D'', modes = {READ, WRITE},
             read = (\<lambda>w. (Inl (ConnectionError ''timeout''), w)),
             write' = (\<lambda>ms w. (if w = 0 then Inl (ConnectionError ''refused'') else Inr (),
                                Suc w))\<rparr>"

text \<open>A relay in the middle of its life: the given connections and queues.\<close>

definition relay_with ::
  "(string, nat) Connection list \<Rightarrow> string queues \<Rightarrow> (string, nat) run" where
  "relay_with cs qs = \<lparr>polling_interval = 10, connections = cs, message_queues = qs,
                       world = 0, calls = []\<rparr>"

text \<open>
  One pass of each thread over \<open>conn_A\<close> and \<open>conn_B\<close>, interleaved: the writer
  finishes the slot of \<open>conn_A\<close> and leaves the first block of \<open>conn_B\<close>; the reader
  then runs its whole pass; the writer then enters the second block of \<open>conn_B\<close>.
\<close>

definition lost_update_schedule :: "(string, nat) step list" where
  "lost_update_schedule =
     [Writer_take conn_A, Writer_clear conn_A, Writer_take conn_B,
      Reader_slot conn_A, Reader_slot conn_B, Writer_clear conn_B]"

section \<open>Properties of the operations\<close>

subsection \<open>The queue table\<close>

lemma map_fst_fan_out: "map fst (fan_out src ms qs) = map fst qs"
  by (induction qs) (auto simp: fan_out_def)

lemma map_of_fan_out:
  "map_of (fan_out src ms qs) n =
     map_option (\<lambda>q. if n \<noteq> src then q @ ms else q) (map_of qs n)"
  by (induction qs) (auto simp: fan_out_def)

lemma map_fst_update_present:
  "k \<in> fst ` set al \<Longrightarrow> map fst (AList.update k v al) = map fst al"
  by (simp add: AList.update_keys)

lemma map_of_update_same: "map_of (AList.update k v al) k = Some v"
  by (simp add: AList.update_conv')

lemma map_of_update_other: "n \<noteq> k \<Longrightarrow> map_of (AList.update k v al) n = map_of al n"
  by (simp add: AList.update_conv')

lemma foldl_update_keys:
  "fst ` set (foldl (\<lambda>d c. AList.update (name c) [] d) d0 cs) = fst ` set d0 \<union> name ` set cs"
  by (induction cs arbitrary: d0) (auto simp: AList.dom_update)

lemma foldl_update_distinct:
  "distinct (map fst d0) \<Longrightarrow> distinct (map fst (foldl (\<lambda>d c. AList.update (name c) [] d) d0 cs))"
  by (induction cs arbitrary: d0) (auto simp: AList.distinct_update)

lemma foldl_update_map_of:
  "map_of (foldl (\<lambda>d c. AList.update (name c) ([]::'m list) d) d0 cs) n =
     (if n \<in> name ` set cs then Some [] else map_of d0 n)"
  by (induction cs arbitrary: d0) (auto simp: AList.update_conv')

lemma empty_queues_keys: "fst ` set (empty_queues cs) = name ` set cs"
  by (simp add: empty_queues_def foldl_update_keys)

lemma empty_queues_distinct: "distinct (map fst (empty_queues cs))"
  using foldl_update_distinct[of "[]" cs] by (simp add: empty_queues_def)

lemma empty_queues_map_of:
  "map_of (empty_queues cs) n = (if n \<in> name ` set cs then Some [] else None)"
  by (simp add: empty_queues_def foldl_update_map_of)

lemma read_loop_append:
  "read_loop (xs @ ys) s =
     (case read_loop xs s of Inl r \<Rightarrow> Inl r | Inr s' \<Rightarrow> read_loop ys s')"
  by (induction xs arbitrary: s) (auto split: sum.splits)

lemma write_loop_append:
  "write_loop (xs @ ys) s =
     (case write_loop xs s of Inl r \<Rightarrow> Inl r | Inr s' \<Rightarrow> write_loop ys s')"
  by (induction xs arbitrary: s) (auto split: sum.splits)

lemma read_slot_skip: "READ \<notin> modes c \<Longrightarrow> read_slot c s = Inr s"
  by (simp add: read_slot_def)

lemma read_loop_filter:
  "read_loop cs s = read_loop (filter (\<lambda>c. READ \<in> modes c) cs) s"
  by (induction cs arbitrary: s) (auto simp: read_slot_skip split: sum.splits)


lemma take_and_write_queues [simp]:
  "message_queues (final (take_and_write c s)) = message_queues s"
  by (auto simp: take_and_write_def split: option.splits sum.splits prod.splits)

lemma take_and_write_connections [simp]:
  "connections (final (take_and_write c s)) = connections s"
  by (auto simp: take_and_write_def split: option.splits sum.splits prod.splits)

lemma write_slot_queues:
  "message_queues (final (write_slot c s)) =
     (if isl (take_and_write c s) then message_queues s
      else AList.update (name c) [] (message_queues s))"
  using take_and_write_queues[of c s]
  by (cases "take_and_write c s") (auto simp: write_slot_def clear_queue_def)

lemma write_slot_keys:
  "name c \<in> fst ` set (message_queues s) \<Longrightarrow>
   map fst (message_queues (final (write_slot c s))) = map fst (message_queues s)"
  by (simp add: write_slot_queues map_fst_update_present)

lemma write_slot_connections [simp]:
  "connections (final (write_slot c s)) = connections s"
  using take_and_write_connections[of c s]
  by (cases "take_and_write c s") (auto simp: write_slot_def clear_queue_def)

lemma write_loop_keys:
  "name ` set cs \<subseteq> fst ` set (message_queues s) \<Longrightarrow>
   map fst (message_queues (final (write_loop cs s))) = map fst (message_queues s)"
proof (induction cs arbitrary: s)
  case Nil
  then show ?case by simp
next
  case (Cons c cs)
  have k: "map fst (message_queues (final (write_slot c s))) = map fst (message_queues s)"
    using Cons.prems by (simp add: write_slot_keys)
  show ?case
  proof (cases "write_slot c s")
    case (Inl r)
    then show ?thesis using k by (cases r) simp
  next
    case (Inr s')
    have "fst ` set (message_queues s') = fst ` set (message_queues s)"
      using k Inr by (metis final.simps(2) list.set_map)
    then have "map fst (message_queues (final (write_loop cs s'))) = map fst (message_queues s')"
      using Cons.prems by (intro Cons.IH) simp
    then show ?thesis using k Inr by simp
  qed
qed

lemma write_loop_connections [simp]:
  "connections (final (write_loop cs s)) = connections s"
proof (induction cs arbitrary: s)
  case Nil
  then show ?case by simp
next
  case (Cons c cs)
  show ?case
  proof (cases "write_slot c s")
    case (Inl r)
    then show ?thesis using write_slot_connections[of c s] by (cases r) simp
  next
    case (Inr s')
    then show ?thesis using write_slot_connections[of c s] Cons.IH[of s'] by simp
  qed
qed

lemma read_slot_keys [simp]:
  "map fst (message_queues (final (read_slot c s))) = map fst (message_queues s)"
  by (auto simp: read_slot_def Let_def map_fst_fan_out split: sum.splits prod.splits)

lemma read_slot_connections [simp]:
  "connections (final (read_slot c s)) = connections s"
  by (auto simp: read_slot_def Let_def split: sum.splits prod.splits)

lemma read_loop_keys [simp]:
  "map fst (message_queues (final (read_loop cs s))) = map fst (message_queues s)"
proof (induction cs arbitrary: s)
  case Nil
  then show ?case by simp
next
  case (Cons c cs)
  show ?case
  proof (cases "read_slot c s")
    case (Inl r)
    then show ?thesis using read_slot_keys[of c s] by (cases r) simp
  next
    case (Inr s')
    then show ?thesis using read_slot_keys[of c s] Cons.IH[of s'] by simp
  qed
qed

lemma read_loop_connections [simp]:
  "connections (final (read_loop cs s)) = connections s"
proof (induction cs arbitrary: s)
  case Nil
  then show ?case by simp
next
  case (Cons c cs)
  show ?case
  proof (cases "read_slot c s")
    case (Inl r)
    then show ?thesis using read_slot_connections[of c s] by (cases r) simp
  next
    case (Inr s')
    then show ?thesis using read_slot_connections[of c s] Cons.IH[of s'] by simp
  qed
qed


lemma writes_to_append [simp]: "writes_to n (xs @ ys) = writes_to n xs @ writes_to n ys"
  by (induction n xs rule: writes_to.induct) auto

lemma reads_of_append [simp]: "reads_of (xs @ ys) = reads_of xs @ reads_of ys"
  by (induction xs rule: reads_of.induct) auto

lemma take_and_write_no_mode: "WRITE \<notin> modes c \<Longrightarrow> take_and_write c s = Inr s"
  by (simp add: take_and_write_def)

lemma take_and_write_empty:
  "WRITE \<in> modes c \<Longrightarrow> map_of (message_queues s) (name c) = Some [] \<Longrightarrow>
   take_and_write c s = Inr s"
  by (simp add: take_and_write_def)

lemma take_and_write_returns:
  "WRITE \<in> modes c \<Longrightarrow> map_of (message_queues s) (name c) = Some q \<Longrightarrow> q \<noteq> [] \<Longrightarrow>
   write' c q (world s) = (Inr u, w') \<Longrightarrow>
   take_and_write c s = Inr (s\<lparr>world := w', calls := calls s @ [WriteCall (name c) q]\<rparr>)"
  by (simp add: take_and_write_def)

lemma take_and_write_raises:
  "WRITE \<in> modes c \<Longrightarrow> map_of (message_queues s) (name c) = Some q \<Longrightarrow> q \<noteq> [] \<Longrightarrow>
   write' c q (world s) = (Inl e, w') \<Longrightarrow>
   take_and_write c s = Inl (e, s\<lparr>world := w', calls := calls s @ [WriteCall (name c) q]\<rparr>)"
  by (simp add: take_and_write_def)

lemma take_and_write_calls:
  "WRITE \<in> modes c \<Longrightarrow> map_of (message_queues s) (name c) = Some q \<Longrightarrow>
   calls (final (take_and_write c s)) =
     calls s @ (if q = [] then [] else [WriteCall (name c) q])"
  by (auto simp: take_and_write_def split: sum.splits prod.splits)

lemma write_slot_calls [simp]:
  "calls (final (write_slot c s)) = calls (final (take_and_write c s))"
  by (cases "take_and_write c s") (auto simp: write_slot_def clear_queue_def)

lemma take_and_write_other_name:
  "name c \<noteq> n \<or> WRITE \<notin> modes c \<Longrightarrow>
   writes_to n (calls (final (take_and_write c s))) = writes_to n (calls s)"
  by (auto simp: take_and_write_def split: option.splits sum.splits prod.splits)

lemma write_loop_other_names:
  "\<forall>d\<in>set cs. name d = n \<longrightarrow> WRITE \<notin> modes d \<Longrightarrow>
   writes_to n (calls (final (write_loop cs s))) = writes_to n (calls s)"
proof (induction cs arbitrary: s)
  case Nil
  then show ?case by simp
next
  case (Cons c cs)
  have c: "writes_to n (calls (final (write_slot c s))) = writes_to n (calls s)"
    using Cons.prems by (simp add: take_and_write_other_name)
  show ?case
  proof (cases "write_slot c s")
    case (Inl r)
    then show ?thesis using c by (cases r) simp
  next
    case (Inr s')
    then show ?thesis using c Cons.IH[of s'] Cons.prems by simp
  qed
qed

subsection \<open>Outcomes of a slot\<close>

lemma read_slot_returns:
  "READ \<in> modes c \<Longrightarrow> read c (world s) = (Inr ms, w') \<Longrightarrow>
   read_slot c s =
     Inr (if ms \<noteq> []
          then s\<lparr>world := w', calls := calls s @ [ReadCall (name c)],
                 message_queues := fan_out (name c) ms (message_queues s)\<rparr>
          else s\<lparr>world := w', calls := calls s @ [ReadCall (name c)]\<rparr>)"
  by (simp add: read_slot_def)

lemma read_slot_raises:
  "READ \<in> modes c \<Longrightarrow> read c (world s) = (Inl e, w') \<Longrightarrow>
   read_slot c s = Inl (e, s\<lparr>world := w', calls := calls s @ [ReadCall (name c)]\<rparr>)"
  by (simp add: read_slot_def)

lemma read_slot_reads:
  "set (reads_of (calls (final (read_slot c s))))
     \<subseteq> set (reads_of (calls s)) \<union> (if READ \<in> modes c then {name c} else {})"
  by (auto simp: read_slot_def Let_def split: sum.splits prod.splits)

lemma read_loop_reads:
  "set (reads_of (calls (final (read_loop cs s))))
     \<subseteq> set (reads_of (calls s)) \<union> name ` {c \<in> set cs. READ \<in> modes c}"
proof (induction cs arbitrary: s)
  case Nil
  then show ?case by simp
next
  case (Cons c cs)
  have c: "set (reads_of (calls (final (read_slot c s))))
             \<subseteq> set (reads_of (calls s)) \<union> (if READ \<in> modes c then {name c} else {})"
    by (rule read_slot_reads)
  show ?case
  proof (cases "read_slot c s")
    case (Inl r)
    then show ?thesis using c by (cases r) (auto split: if_splits)
  next
    case (Inr s')
    then show ?thesis using c Cons.IH[of s'] by (auto split: if_splits)
  qed
qed

lemma write_slot_no_mode:
  "WRITE \<notin> modes c \<Longrightarrow> write_slot c s = Inr (clear_queue c s)"
  by (simp add: write_slot_def take_and_write_no_mode)

lemma write_slot_returns:
  "WRITE \<in> modes c \<Longrightarrow> map_of (message_queues s) (name c) = Some q \<Longrightarrow> q \<noteq> [] \<Longrightarrow>
   write' c q (world s) = (Inr u, w') \<Longrightarrow>
   write_slot c s =
     Inr (s\<lparr>world := w', calls := calls s @ [WriteCall (name c) q],
            message_queues := AList.update (name c) [] (message_queues s)\<rparr>)"
  by (simp add: write_slot_def take_and_write_returns clear_queue_def)

lemma write_slot_raises:
  "WRITE \<in> modes c \<Longrightarrow> map_of (message_queues s) (name c) = Some q \<Longrightarrow> q \<noteq> [] \<Longrightarrow>
   write' c q (world s) = (Inl e, w') \<Longrightarrow>
   write_slot c s = Inl (e, s\<lparr>world := w', calls := calls s @ [WriteCall (name c) q]\<rparr>)"
  by (simp add: write_slot_def take_and_write_raises)

lemma Barkr_write_split:
  "connections s0 = pre @ c # post \<Longrightarrow> write_loop pre s0 = Inr s \<Longrightarrow>
   Barkr_write s0 =
     (case write_slot c s of Inl r \<Rightarrow> Inl r | Inr s' \<Rightarrow> write_loop post s')"
  by (simp add: Barkr_write_def write_loop_append)

subsection \<open>Queues after a pass of the writer\<close>

lemma write_slot_cleared:
  "write_slot c s = Inr s' \<Longrightarrow> map_of (message_queues s') (name c) = Some []"
  using take_and_write_queues[of c s]
  by (cases "take_and_write c s") (auto simp: write_slot_def clear_queue_def map_of_update_same)

lemma write_slot_keeps_empty:
  "write_slot d s = Inr s' \<Longrightarrow> map_of (message_queues s) n = Some [] \<Longrightarrow>
   map_of (message_queues s') n = Some []"
  using take_and_write_queues[of d s]
  by (cases "take_and_write d s") (auto simp: write_slot_def clear_queue_def AList.update_conv')

lemma write_loop_keeps_empty:
  "write_loop cs s = Inr s' \<Longrightarrow> map_of (message_queues s) n = Some [] \<Longrightarrow>
   map_of (message_queues s') n = Some []"
proof (induction cs arbitrary: s)
  case Nil
  then show ?case by simp
next
  case (Cons d cs)
  then show ?case
    by (cases "write_slot d s") (auto dest: write_slot_keeps_empty)
qed

lemma write_loop_cleared:
  "write_loop cs s = Inr s' \<Longrightarrow> c \<in> set cs \<Longrightarrow> map_of (message_queues s') (name c) = Some []"
proof (induction cs arbitrary: s)
  case Nil
  then show ?case by simp
next
  case (Cons d cs)
  show ?case
  proof (cases "write_slot d s")
    case (Inl r)
    then show ?thesis using Cons.prems by simp
  next
    case (Inr s1)
    then have rest: "write_loop cs s1 = Inr s'" using Cons.prems by simp
    show ?thesis
    proof (cases "c = d")
      case True
      then have "map_of (message_queues s1) (name c) = Some []"
        using Inr by (simp add: write_slot_cleared)
      then show ?thesis using rest by (rule write_loop_keeps_empty[rotated])
    next
      case False
      then show ?thesis using Cons.IH[OF rest] Cons.prems by simp
    qed
  qed
qed

subsection \<open>The key list over whole passes\<close>

lemma Barkr_read_keys:
  "map fst (message_queues (final (Barkr_read s))) = map fst (message_queues s)"
  by (simp add: Barkr_read_def)

lemma Barkr_write_keys:
  "name ` set (connections s) \<subseteq> fst ` set (message_queues s) \<Longrightarrow>
   map fst (message_queues (final (Barkr_write s))) = map fst (message_queues s)"
  by (simp add: Barkr_write_def write_loop_keys)

lemma run_ticks_keys:
  "name ` set (connections s) \<subseteq> fst ` set (message_queues s) \<Longrightarrow>
   map fst (message_queues (run_ticks ts s)) = map fst (message_queues s)"
proof (induction ts s rule: run_ticks.induct)
  case (1 s)
  then show ?case by simp
next
  case (2 ts s)
  have k: "map fst (message_queues (final (Barkr_read s))) = map fst (message_queues s)"
    by (rule Barkr_read_keys)
  have "fst ` set (message_queues (final (Barkr_read s))) = fst ` set (message_queues s)"
    using k by (metis list.set_map)
  then show ?case using 2 k by (simp add: Barkr_read_def)
next
  case (3 ts s)
  have k: "map fst (message_queues (final (Barkr_write s))) = map fst (message_queues s)"
    using 3(2) by (rule Barkr_write_keys)
  have "fst ` set (message_queues (final (Barkr_write s))) = fst ` set (message_queues s)"
    using k by (metis list.set_map)
  then show ?case using 3 k by (simp add: Barkr_write_def)
next
  case (4 w ts s)
  then show ?case by simp
qed

subsection \<open>The steps under the lock make up the passes\<close>

text \<open>
  Run alone, the steps of a thread in program order are the pass of that thread: the
  step model adds nothing but the places where the other thread may come in.
\<close>

lemma run_reader_steps: "run_steps (reader_steps cs) s = read_loop cs s"
  by (induction cs arbitrary: s) (auto simp: reader_steps_def split: sum.splits)

lemma run_writer_steps: "run_steps (writer_steps cs) s = write_loop cs s"
  by (induction cs arbitrary: s) (auto simp: writer_steps_def write_slot_def split: sum.splits)

section \<open>The claims\<close>

subsection \<open>Construction\<close>

text \<open>
  Claim C6. Constructing the relay with an empty list of connections fails with the
  \<^verbatim>\<open>ValueError\<close> and yields no relay at all. Constructing it with one or more
  connections succeeds, and the queue table then holds each connection name exactly
  once (the keys are distinct and are the names of the connections) with an empty
  queue for each.
\<close>

theorem construction_empty_fails_nonempty_succeeds:
  fixes cs :: "('m, 'w) Connection list"
  shows "Barkr_init ([] :: ('m, 'w) Connection list) p
           = Inl (ValueError ''Must provide at least one connection!'') \<and>
   (cs \<noteq> [] \<longrightarrow>
      (\<exists>b. Barkr_init cs p = Inr b \<and> connections b = cs \<and>
           distinct (map fst (message_queues b)) \<and>
           fst ` set (message_queues b) = name ` set cs \<and>
           (\<forall>n q. (n, q) \<in> set (message_queues b) \<longrightarrow> q = [])))"
proof -
  have vals: "(n, q) \<in> set (empty_queues cs) \<Longrightarrow> q = []" for n and q :: "'m list"
  proof -
    assume m: "(n, q) \<in> set (empty_queues cs)"
    then have "map_of (empty_queues cs) n = Some q"
      using empty_queues_distinct[of cs] by simp
    then show "q = []"
      by (simp add: empty_queues_map_of split: if_splits)
  qed
  show ?thesis
    using vals by (simp add: Barkr_init_def empty_queues_distinct empty_queues_keys)
qed

theorem construction_empty_fails_nonempty_succeeds_witness:
  "[conn_A, conn_B, conn_C] \<noteq> [] \<and>
   Barkr_init ([] :: (string, nat) Connection list) 10
     = Inl (ValueError ''Must provide at least one connection!'') \<and>
   (\<exists>b. Barkr_init [conn_A, conn_B, conn_C] 10 = Inr b \<and>
        message_queues b = [(''A'', []), (''B'', []), (''C'', [])])"
  using construction_empty_fails_nonempty_succeeds [of 10 "[conn_A, conn_B, conn_C]"]
  by (simp add: Barkr_init_def empty_queues_def conn_A_def conn_B_def conn_C_def)

text \<open>
  Claim C10. The only check made by the constructor is that the list of connections is
  not empty: with a non-empty list it returns the relay for every integer polling
  interval, zero and negative ones included, and stores the interval as given; it
  fails exactly when the list is empty.
\<close>

theorem construction_accepts_any_interval:
  "(cs \<noteq> [] \<longrightarrow>
      Barkr_init cs p = Inr \<lparr>polling_interval = p, connections = cs,
                             message_queues = empty_queues cs\<rparr>) \<and>
   (isl (Barkr_init cs p) \<longleftrightarrow> cs = [])"
  by (simp add: Barkr_init_def)

theorem construction_accepts_any_interval_witness:
  "[conn_A] \<noteq> [] \<and>
   Barkr_init [conn_A] 0 = Inr \<lparr>polling_interval = 0, connections = [conn_A],
                                 message_queues = [(''A'', [])]\<rparr> \<and>
   Barkr_init [conn_A] (- 5) = Inr \<lparr>polling_interval = - 5, connections = [conn_A],
                                 message_queues = [(''A'', [])]\<rparr>"
  using construction_accepts_any_interval [of "[conn_A]" 0]
        construction_accepts_any_interval [of "[conn_A]" "- 5"]
  by (simp add: empty_queues_def conn_A_def)

subsection \<open>The reader\<close>

text \<open>
  Claim C3. When a connection with \<^verbatim>\<open>READ\<close> in its modes is read and returns a
  non-empty list of messages, the slot returns normally, the table keeps its keys in
  their order, every queue under another name is its former content followed by
  exactly those messages in the order returned, and the queue under the connection's
  own name is unchanged.
\<close>

theorem fan_out_appends_to_every_other_queue:
  assumes "READ \<in> modes c"
      and "read c (world s) = (Inr ms, w')"
      and "ms \<noteq> []"
  shows "read_slot c s =
           Inr (s\<lparr>world := w', calls := calls s @ [ReadCall (name c)],
                  message_queues := fan_out (name c) ms (message_queues s)\<rparr>) \<and>
         map fst (fan_out (name c) ms (message_queues s)) = map fst (message_queues s) \<and>
         (\<forall>n q. map_of (message_queues s) n = Some q \<longrightarrow>
            map_of (fan_out (name c) ms (message_queues s)) n
              = Some (if n = name c then q else q @ ms))"
  using assms by (simp add: read_slot_returns map_fst_fan_out map_of_fan_out)

theorem fan_out_appends_to_every_other_queue_witness:
  "READ \<in> modes conn_R \<and>
   read conn_R (world (relay_with [conn_R, conn_B, conn_C]
                         [(''R'', [''x'']), (''B'', [''y'']), (''C'', [])]))
     = (Inr [''r1'', ''r2''], 0) \<and>
   read_slot conn_R (relay_with [conn_R, conn_B, conn_C]
                       [(''R'', [''x'']), (''B'', [''y'']), (''C'', [])])
     = Inr ((relay_with [conn_R, conn_B, conn_C]
              [(''R'', [''x'']), (''B'', [''y'', ''r1'', ''r2'']), (''C'', [''r1'', ''r2''])])
            \<lparr>calls := [ReadCall ''R'']\<rparr>)"
  using fan_out_appends_to_every_other_queue
          [of conn_R "relay_with [conn_R, conn_B, conn_C]
                        [(''R'', [''x'']), (''B'', [''y'']), (''C'', [])]" "[''r1'', ''r2'']" 0]
  by (simp add: conn_R_def relay_with_def fan_out_def)

text \<open>
  Claim C8. A connection without \<^verbatim>\<open>READ\<close> in its modes is never read: its slot in a
  pass of the reader returns at once and leaves the whole state as it was (no call, no
  queue touched), a pass of the reader is the pass over the connections that have
  \<^verbatim>\<open>READ\<close>, and every name on which \<^verbatim>\<open>read\<close> is called during a pass is the name of a
  connection with \<^verbatim>\<open>READ\<close>. What its \<^verbatim>\<open>read\<close> would return plays no part.
\<close>

theorem connection_without_read_is_never_read:
  "(READ \<notin> modes c \<longrightarrow> read_slot c s = Inr s) \<and>
   Barkr_read s = read_loop (filter (\<lambda>c. READ \<in> modes c) (connections s)) s \<and>
   set (reads_of (calls (final (Barkr_read s))))
     \<subseteq> set (reads_of (calls s)) \<union> name ` {c \<in> set (connections s). READ \<in> modes c}"
  using read_loop_filter[of "connections s" s] read_loop_reads[of "connections s" s]
  by (simp add: Barkr_read_def read_slot_skip)

theorem connection_without_read_is_never_read_witness:
  "READ \<notin> modes conn_C \<and>
   fst (read conn_C 0) = Inr [''c1''] \<and>
   read_slot conn_C (relay_with [conn_C, conn_B] [(''C'', []), (''B'', [])])
     = Inr (relay_with [conn_C, conn_B] [(''C'', []), (''B'', [])]) \<and>
   Barkr_read (relay_with [conn_C, conn_B] [(''C'', []), (''B'', [])])
     = Inr ((relay_with [conn_C, conn_B] [(''C'', []), (''B'', [])])
            \<lparr>calls := [ReadCall ''B'']\<rparr>)"
  using connection_without_read_is_never_read
          [of conn_C "relay_with [conn_C, conn_B] [(''C'', []), (''B'', [])]"]
  by (simp add: conn_C_def conn_B_def relay_with_def read_slot_def)

text \<open>
  Claim C4, as amended. If \<^verbatim>\<open>read\<close> of a connection raises during a pass of the reader,
  the exception leaves \<^verbatim>\<open>Barkr.read\<close> at once: the pass ends with that exception, in
  the state reached after the connections before it plus the failed call. The
  connection contributes nothing, what the earlier connections fanned out stays, and
  no later connection is read in that pass.
\<close>

theorem read_failure_aborts_the_pass:
  assumes "connections s = pre @ c # post"
      and "read_loop pre s = Inr s1"
      and "READ \<in> modes c"
      and "read c (world s1) = (Inl e, w')"
  shows "Barkr_read s = Inl (e, s1\<lparr>world := w', calls := calls s1 @ [ReadCall (name c)]\<rparr>)"
  using assms by (simp add: Barkr_read_def read_loop_append read_slot_raises)

theorem read_failure_aborts_the_pass_witness:
  "READ \<in> modes conn_D \<and>
   read_loop [conn_R] (relay_with [conn_R, conn_D, conn_A] [(''R'', []), (''D'', []), (''A'', [])])
     = Inr ((relay_with [conn_R, conn_D, conn_A]
               [(''R'', []), (''D'', [''r1'', ''r2'']), (''A'', [''r1'', ''r2''])])
            \<lparr>calls := [ReadCall ''R'']\<rparr>) \<and>
   Barkr_read (relay_with [conn_R, conn_D, conn_A] [(''R'', []), (''D'', []), (''A'', [])])
     = Inl (ConnectionError ''timeout'',
            (relay_with [conn_R, conn_D, conn_A]
               [(''R'', []), (''D'', [''r1'', ''r2'']), (''A'', [''r1'', ''r2''])])
            \<lparr>calls := [ReadCall ''R'', ReadCall ''D'']\<rparr>)"
  using read_failure_aborts_the_pass
          [of "relay_with [conn_R, conn_D, conn_A] [(''R'', []), (''D'', []), (''A'', [])]"
              "[conn_R]" conn_D "[conn_A]"
              "(relay_with [conn_R, conn_D, conn_A]
                 [(''R'', []), (''D'', [''r1'', ''r2'']), (''A'', [''r1'', ''r2''])])
               \<lparr>calls := [ReadCall ''R'']\<rparr>"
              "ConnectionError ''timeout''" 0]
  by (simp add: conn_R_def conn_D_def relay_with_def read_slot_def fan_out_def)

text \<open>
  Claim C4 as stated fails. With the connections \<open>conn_D\<close>, \<open>conn_A\<close>, \<open>conn_C\<close> in
  this order, \<^verbatim>\<open>read\<close> of \<open>conn_D\<close> raises and the pass ends there: the only call made
  is the one on \<open>conn_D\<close>, although \<open>conn_A\<close> comes later and has \<^verbatim>\<open>READ\<close>, and no queue
  has changed. Without \<open>conn_D\<close> in front, the same pass delivers the message of
  \<open>conn_A\<close> to \<open>conn_C\<close>.
\<close>

theorem read_failure_skips_later_connections_counterexample:
  "READ \<in> modes conn_A \<and>
   isl (Barkr_read (relay_with [conn_D, conn_A, conn_C] [(''D'', []), (''A'', []), (''C'', [])])) \<and>
   calls (final (Barkr_read (relay_with [conn_D, conn_A, conn_C]
                               [(''D'', []), (''A'', []), (''C'', [])])))
     = [ReadCall ''D''] \<and>
   message_queues (final (Barkr_read (relay_with [conn_D, conn_A, conn_C]
                                        [(''D'', []), (''A'', []), (''C'', [])])))
     = [(''D'', []), (''A'', []), (''C'', [])] \<and>
   message_queues (final (Barkr_read (relay_with [conn_A, conn_C] [(''A'', []), (''C'', [])])))
     = [(''A'', []), (''C'', [''m1''])]"
  by (simp add: Barkr_read_def relay_with_def read_slot_def fan_out_def
                conn_A_def conn_C_def conn_D_def)

subsection \<open>The writer\<close>

text \<open>
  Claim C5. For a connection with \<^verbatim>\<open>WRITE\<close> in its modes, the slot of a pass of the
  writer calls \<^verbatim>\<open>write\<close> exactly once, with the whole queue in stored order as one
  batch, when the queue is not empty at the slot, and does not call it when the queue
  is empty. Over the whole pass, when the connection's name is no other connection's
  and the pass reaches the slot, the batches passed to \<^verbatim>\<open>write\<close> under that name are
  that one batch, or none.
\<close>

theorem write_called_once_with_the_whole_queue:
  assumes "WRITE \<in> modes c"
      and "map_of (message_queues s) (name c) = Some q"
  shows "calls (final (write_slot c s))
           = calls s @ (if q = [] then [] else [WriteCall (name c) q]) \<and>
         (connections s0 = pre @ c # post \<and> write_loop pre s0 = Inr s \<and>
          name c \<notin> name ` set pre \<and> name c \<notin> name ` set post \<longrightarrow>
            writes_to (name c) (calls (final (Barkr_write s0)))
              = writes_to (name c) (calls s0) @ (if q = [] then [] else [q]))"
proof (intro conjI impI)
  show slot: "calls (final (write_slot c s))
                = calls s @ (if q = [] then [] else [WriteCall (name c) q])"
    using assms by (simp add: take_and_write_calls)
  assume h: "connections s0 = pre @ c # post \<and> write_loop pre s0 = Inr s \<and>
             name c \<notin> name ` set pre \<and> name c \<notin> name ` set post"
  then have split: "Barkr_write s0 =
      (case write_slot c s of Inl r \<Rightarrow> Inl r | Inr s' \<Rightarrow> write_loop post s')"
    using Barkr_write_split[of s0 pre c post s] by simp
  have "\<forall>d\<in>set pre. name d = name c \<longrightarrow> WRITE \<notin> modes d"
    using h by (metis imageI)
  then have before: "writes_to (name c) (calls s) = writes_to (name c) (calls s0)"
    using write_loop_other_names[of pre "name c" s0] h by simp
  have here: "writes_to (name c) (calls (final (write_slot c s)))
                = writes_to (name c) (calls s0) @ (if q = [] then [] else [q])"
    by (simp only: slot writes_to_append before) simp
  show "writes_to (name c) (calls (final (Barkr_write s0)))
          = writes_to (name c) (calls s0) @ (if q = [] then [] else [q])"
  proof (cases "write_slot c s")
    case (Inl r)
    then have "Barkr_write s0 = write_slot c s"
      using split by simp
    then show ?thesis using here by simp
  next
    case (Inr s2)
    then have "Barkr_write s0 = write_loop post s2"
      using split by simp
    moreover have "\<forall>d\<in>set post. name d = name c \<longrightarrow> WRITE \<notin> modes d"
      using h by (metis imageI)
    then have "writes_to (name c) (calls (final (write_loop post s2)))
                     = writes_to (name c) (calls s2)"
      by (rule write_loop_other_names)
    ultimately show ?thesis using here Inr by simp
  qed
qed

theorem write_called_once_with_the_whole_queue_witness:
  "WRITE \<in> modes conn_B \<and> WRITE \<in> modes conn_A \<and>
   map_of (message_queues (relay_with [conn_A, conn_B, conn_C]
             [(''A'', []), (''B'', [''m1'', ''m2'']), (''C'', [''m1''])])) (name conn_B)
     = Some [''m1'', ''m2''] \<and>
   writes_to ''B'' (calls (final (Barkr_write
      (relay_with [conn_A, conn_B, conn_C] [(''A'', []), (''B'', [''m1'', ''m2'']), (''C'', [''m1''])]))))
     = [[''m1'', ''m2'']] \<and>
   writes_to ''A'' (calls (final (Barkr_write
      (relay_with [conn_A, conn_B, conn_C] [(''A'', []), (''B'', [''m1'', ''m2'']), (''C'', [''m1''])]))))
     = []"
  using write_called_once_with_the_whole_queue
          [of conn_B
              "relay_with [conn_A, conn_B, conn_C] [(''A'', []), (''B'', [''m1'', ''m2'']), (''C'', [''m1''])]"
              "[''m1'', ''m2'']"
              "relay_with [conn_A, conn_B, conn_C] [(''A'', []), (''B'', [''m1'', ''m2'']), (''C'', [''m1''])]"
              "[conn_A]" "[conn_C]"]
        write_called_once_with_the_whole_queue
          [of conn_A
              "relay_with [conn_A, conn_B, conn_C] [(''A'', []), (''B'', [''m1'', ''m2'']), (''C'', [''m1''])]"
              "[]"
              "relay_with [conn_A, conn_B, conn_C] [(''A'', []), (''B'', [''m1'', ''m2'']), (''C'', [''m1''])]"
              "[]" "[conn_B, conn_C]"]
  by (simp add: conn_A_def conn_B_def conn_C_def relay_with_def write_slot_def
                take_and_write_def clear_queue_def)

text \<open>
  Claim C1, as amended. For a connection with \<^verbatim>\<open>WRITE\<close> in its modes whose queue is not
  empty at the start of its slot, the slot calls \<^verbatim>\<open>write\<close> exactly once, with that
  queue. If \<^verbatim>\<open>write\<close> returns, the slot returns and the queue is empty right after it.
  If \<^verbatim>\<open>write\<close> raises, the exception leaves \<^verbatim>\<open>Barkr.write\<close> at once: the queue is not
  cleared and still holds the batch, and the pass ends there with that exception.
\<close>

theorem write_slot_empties_queue_unless_write_raises:
  assumes "WRITE \<in> modes c"
      and "map_of (message_queues s) (name c) = Some q"
      and "q \<noteq> []"
  shows "(write' c q (world s) = (Inr u, w1) \<longrightarrow>
            write_slot c s =
              Inr (s\<lparr>world := w1, calls := calls s @ [WriteCall (name c) q],
                     message_queues := AList.update (name c) [] (message_queues s)\<rparr>) \<and>
            map_of (message_queues (final (write_slot c s))) (name c) = Some []) \<and>
         (write' c q (world s) = (Inl e, w2) \<longrightarrow>
            write_slot c s
              = Inl (e, s\<lparr>world := w2, calls := calls s @ [WriteCall (name c) q]\<rparr>) \<and>
            map_of (message_queues (final (write_slot c s))) (name c) = Some q \<and>
            (connections s0 = pre @ c # post \<and> write_loop pre s0 = Inr s \<longrightarrow>
               Barkr_write s0
                 = Inl (e, s\<lparr>world := w2, calls := calls s @ [WriteCall (name c) q]\<rparr>)))"
proof (intro conjI impI)
  assume w: "write' c q (world s) = (Inr u, w1)"
  show r: "write_slot c s =
        Inr (s\<lparr>world := w1, calls := calls s @ [WriteCall (name c) q],
               message_queues := AList.update (name c) [] (message_queues s)\<rparr>)"
    using assms w by (rule write_slot_returns)
  show "map_of (message_queues (final (write_slot c s))) (name c) = Some []"
    by (simp add: r map_of_update_same)
next
  assume w: "write' c q (world s) = (Inl e, w2)"
  show r: "write_slot c s
        = Inl (e, s\<lparr>world := w2, calls := calls s @ [WriteCall (name c) q]\<rparr>)"
    using assms w by (rule write_slot_raises)
  show "map_of (message_queues (final (write_slot c s))) (name c) = Some q"
    by (simp add: r assms(2))
  assume "connections s0 = pre @ c # post \<and> write_loop pre s0 = Inr s"
  then show "Barkr_write s0
        = Inl (e, s\<lparr>world := w2, calls := calls s @ [WriteCall (name c) q]\<rparr>)"
    using Barkr_write_split[of s0 pre c post s] by (simp add: r)
qed

theorem write_slot_empties_queue_unless_write_raises_witness:
  "WRITE \<in> modes conn_B \<and> WRITE \<in> modes conn_D \<and>
   write' conn_B [''m1''] 0 = (Inr (), 0) \<and>
   write' conn_D [''m1''] 0 = (Inl (ConnectionError ''refused''), 1) \<and>
   write_slot conn_B (relay_with [conn_A, conn_B, conn_C] [(''A'', []), (''B'', [''m1'']), (''C'', [''m1''])])
     = Inr ((relay_with [conn_A, conn_B, conn_C] [(''A'', []), (''B'', []), (''C'', [''m1''])])
            \<lparr>calls := [WriteCall ''B'' [''m1'']]\<rparr>) \<and>
   Barkr_write (relay_with [conn_A, conn_D, conn_C] [(''A'', []), (''D'', [''m1'']), (''C'', [''m1''])])
     = Inl (ConnectionError ''refused'',
            (relay_with [conn_A, conn_D, conn_C] [(''A'', []), (''D'', [''m1'']), (''C'', [''m1''])])
            \<lparr>world := 1, calls := [WriteCall ''D'' [''m1'']]\<rparr>)"
  using write_slot_empties_queue_unless_write_raises
          [of conn_B
              "relay_with [conn_A, conn_B, conn_C] [(''A'', []), (''B'', [''m1'']), (''C'', [''m1''])]"
              "[''m1'']" "()" 0]
        write_slot_empties_queue_unless_write_raises
          [of conn_D
              "relay_with [conn_A, conn_D, conn_C] [(''A'', []), (''D'', [''m1'']), (''C'', [''m1''])]"
              "[''m1'']" _ _ "ConnectionError ''refused''" 1
              "relay_with [conn_A, conn_D, conn_C] [(''A'', []), (''D'', [''m1'']), (''C'', [''m1''])]"
              "[conn_A]" "[conn_C]"]
  by (simp add: conn_A_def conn_B_def conn_D_def relay_with_def write_slot_def
                take_and_write_def clear_queue_def)

text \<open>
  Claim C1 as stated fails. \<open>conn_D\<close> has \<^verbatim>\<open>WRITE\<close> and a queue holding one message;
  its \<^verbatim>\<open>write\<close> raises at the first call. The slot ends with the exception and the
  queue still holds the message. The next pass of the writer passes the same batch to
  \<^verbatim>\<open>write\<close> again: it is delivered a second time, not discarded.
\<close>

theorem failed_write_keeps_the_batch_counterexample:
  "WRITE \<in> modes conn_D \<and>
   map_of (message_queues (relay_with [conn_D] [(''D'', [''m1''])])) (name conn_D) = Some [''m1''] \<and>
   isl (write_slot conn_D (relay_with [conn_D] [(''D'', [''m1''])])) \<and>
   map_of (message_queues (final (write_slot conn_D (relay_with [conn_D] [(''D'', [''m1''])]))))
          (name conn_D) = Some [''m1''] \<and>
   calls (run_ticks [WriteTick, WriteTick] (relay_with [conn_D] [(''D'', [''m1''])]))
     = [WriteCall ''D'' [''m1''], WriteCall ''D'' [''m1'']]"
  by (simp add: Barkr_write_def relay_with_def write_slot_def take_and_write_def
                clear_queue_def conn_D_def)

text \<open>
  Claim C7, as amended. For a connection without \<^verbatim>\<open>WRITE\<close> in its modes, the slot of
  a pass of the writer sets its queue to empty and changes nothing else: it cannot
  raise and calls nothing, whether the queue was empty or not. So a pass that reaches
  the slot goes on from there with that queue empty, and a pass that returns leaves it
  empty. When no connection of that name has \<^verbatim>\<open>WRITE\<close>, no pass, finished or not,
  calls \<^verbatim>\<open>write\<close> under that name.
\<close>

theorem queue_without_write_is_cleared_when_reached:
  assumes "WRITE \<notin> modes c"
  shows "write_slot c s
           = Inr (s\<lparr>message_queues := AList.update (name c) [] (message_queues s)\<rparr>) \<and>
         map_of (AList.update (name c) [] (message_queues s)) (name c) = Some [] \<and>
         (connections s0 = pre @ c # post \<and> write_loop pre s0 = Inr s \<longrightarrow>
            Barkr_write s0
              = write_loop post
                  (s\<lparr>message_queues := AList.update (name c) [] (message_queues s)\<rparr>)) \<and>
         (c \<in> set (connections s0) \<and> Barkr_write s0 = Inr s' \<longrightarrow>
            map_of (message_queues s') (name c) = Some []) \<and>
         ((\<forall>d\<in>set (connections s0). name d = name c \<longrightarrow> WRITE \<notin> modes d) \<longrightarrow>
            writes_to (name c) (calls (final (Barkr_write s0)))
              = writes_to (name c) (calls s0))"
proof (intro conjI impI)
  show slot: "write_slot c s
          = Inr (s\<lparr>message_queues := AList.update (name c) [] (message_queues s)\<rparr>)"
    using assms by (simp add: write_slot_no_mode clear_queue_def)
  show "map_of (AList.update (name c) [] (message_queues s)) (name c) = Some []"
    by (rule map_of_update_same)
  show "Barkr_write s0
          = write_loop post
              (s\<lparr>message_queues := AList.update (name c) [] (message_queues s)\<rparr>)"
    if "connections s0 = pre @ c # post \<and> write_loop pre s0 = Inr s"
    using that Barkr_write_split[of s0 pre c post s] by (simp add: slot)
  show "map_of (message_queues s') (name c) = Some []"
    if "c \<in> set (connections s0) \<and> Barkr_write s0 = Inr s'"
    using that write_loop_cleared[of "connections s0" s0 s' c] by (simp add: Barkr_write_def)
  show "writes_to (name c) (calls (final (Barkr_write s0))) = writes_to (name c) (calls s0)"
    if "\<forall>d\<in>set (connections s0). name d = name c \<longrightarrow> WRITE \<notin> modes d"
    using that unfolding Barkr_write_def by (rule write_loop_other_names)
qed

theorem queue_without_write_is_cleared_when_reached_witness:
  "WRITE \<notin> modes conn_R \<and>
   write_loop [conn_B] (relay_with [conn_B, conn_R] [(''B'', [''m1'']), (''R'', [''m2''])])
     = Inr ((relay_with [conn_B, conn_R] [(''B'', []), (''R'', [''m2''])])
            \<lparr>calls := [WriteCall ''B'' [''m1'']]\<rparr>) \<and>
   Barkr_write (relay_with [conn_B, conn_R] [(''B'', [''m1'']), (''R'', [''m2''])])
     = Inr ((relay_with [conn_B, conn_R] [(''B'', []), (''R'', [])])
            \<lparr>calls := [WriteCall ''B'' [''m1'']]\<rparr>) \<and>
   writes_to ''R'' (calls (final (Barkr_write
       (relay_with [conn_B, conn_R] [(''B'', [''m1'']), (''R'', [''m2''])])))) = []"
  using queue_without_write_is_cleared_when_reached
          [of conn_R
              "(relay_with [conn_B, conn_R] [(''B'', []), (''R'', [''m2''])])
               \<lparr>calls := [WriteCall ''B'' [''m1'']]\<rparr>"
              "relay_with [conn_B, conn_R] [(''B'', [''m1'']), (''R'', [''m2''])]"
              "[conn_B]" "[]"
              "(relay_with [conn_B, conn_R] [(''B'', []), (''R'', [])])
               \<lparr>calls := [WriteCall ''B'' [''m1'']]\<rparr>"]
  by (simp add: Barkr_write_def conn_B_def conn_R_def relay_with_def write_slot_def
                take_and_write_def clear_queue_def)

text \<open>
  Claim C7 as stated fails. \<open>conn_R\<close> has no \<^verbatim>\<open>WRITE\<close> and a queue holding one
  message; \<open>conn_D\<close> comes before it and its \<^verbatim>\<open>write\<close> raises. The pass of the writer
  ends at \<open>conn_D\<close> and the queue of \<open>conn_R\<close> still holds its message after the pass.
\<close>

theorem queue_without_write_not_cleared_counterexample:
  "WRITE \<notin> modes conn_R \<and>
   conn_R \<in> set (connections (relay_with [conn_D, conn_R] [(''D'', [''m1'']), (''R'', [''m2''])])) \<and>
   isl (Barkr_write (relay_with [conn_D, conn_R] [(''D'', [''m1'']), (''R'', [''m2''])])) \<and>
   map_of (message_queues (final (Barkr_write
      (relay_with [conn_D, conn_R] [(''D'', [''m1'']), (''R'', [''m2''])])))) (name conn_R)
     = Some [''m2'']"
  by (simp add: Barkr_write_def conn_D_def conn_R_def relay_with_def write_slot_def
                take_and_write_def clear_queue_def)

subsection \<open>The keys of the queue table\<close>

text \<open>
  Claim C9. The list of keys of the queue table does not change under a pass of the
  reader, whether it returns or raises, nor under a pass of the writer on a table
  that has a key for every connection. After construction the keys are distinct and
  are the names of the connections, and they stay exactly so through any sequence of
  passes of the reader and of the writer: no entry is added and none is removed.
\<close>

theorem queue_table_keys_never_change:
  fixes cs :: "('m, 'w) Connection list" and s :: "('m, 'w) run"
  shows "map fst (message_queues (final (Barkr_read s))) = map fst (message_queues s) \<and>
   (name ` set (connections s) \<subseteq> fst ` set (message_queues s) \<longrightarrow>
      map fst (message_queues (final (Barkr_write s))) = map fst (message_queues s)) \<and>
   (Barkr_init cs p = Inr b \<longrightarrow>
      distinct (map fst (message_queues b)) \<and>
      fst ` set (message_queues b) = name ` set cs \<and>
      map fst (message_queues (run_ticks ts (start_run b w))) = map fst (message_queues b))"
proof (intro conjI impI)
  show "map fst (message_queues (final (Barkr_read s))) = map fst (message_queues s)"
    by (rule Barkr_read_keys)
next
  assume "name ` set (connections s) \<subseteq> fst ` set (message_queues s)"
  then show "map fst (message_queues (final (Barkr_write s))) = map fst (message_queues s)"
    by (rule Barkr_write_keys)
next
  assume i: "Barkr_init cs p = Inr b"
  then have b: "connections b = cs" "message_queues b = empty_queues cs"
    by (auto simp: Barkr_init_def split: if_splits)
  show "distinct (map fst (message_queues b))"
    by (simp add: b empty_queues_distinct)
  show "fst ` set (message_queues b) = name ` set cs"
    by (simp add: b empty_queues_keys)
  have "name ` set (connections (start_run b w)) \<subseteq> fst ` set (message_queues (start_run b w))"
    by (simp add: start_run_def b empty_queues_keys)
  then have "map fst (message_queues (run_ticks ts (start_run b w)))
               = map fst (message_queues (start_run b w))"
    by (rule run_ticks_keys)
  then show "map fst (message_queues (run_ticks ts (start_run b w))) = map fst (message_queues b)"
    by (simp add: start_run_def)
qed

theorem queue_table_keys_never_change_witness:
  "Barkr_init [conn_A, conn_D, conn_C] 10
     = Inr \<lparr>polling_interval = 10, connections = [conn_A, conn_D, conn_C],
            message_queues = [(''A'', []), (''D'', []), (''C'', [])]\<rparr> \<and>
   message_queues (run_ticks [ReadTick, WriteTick, ReadTick]
      (start_run \<lparr>polling_interval = 10, connections = [conn_A, conn_D, conn_C],
                  message_queues = [(''A'', []), (''D'', []), (''C'', [])]\<rparr> 0))
     = [(''A'', []), (''D'', [''m1'', ''m1'']), (''C'', [''m1'', ''m1''])]"
  using queue_table_keys_never_change
          [of "start_run \<lparr>polling_interval = 10, connections = [conn_A, conn_D, conn_C],
                  message_queues = [(''A'', []), (''D'', []), (''C'', [])]\<rparr> 0"
              "[conn_A, conn_D, conn_C]" 10
              "\<lparr>polling_interval = 10, connections = [conn_A, conn_D, conn_C],
                  message_queues = [(''A'', []), (''D'', []), (''C'', [])]\<rparr>"
              "[ReadTick, WriteTick, ReadTick]" 0]
  by (simp add: Barkr_init_def empty_queues_def start_run_def Barkr_read_def Barkr_write_def
                read_slot_def fan_out_def write_slot_def take_and_write_def clear_queue_def
                conn_A_def conn_C_def conn_D_def)

subsection \<open>The two threads\<close>

text \<open>
  Claim C2 says that no interleaving of the two threads loses a message and that a
  queue is taken and replaced by an empty one within one acquisition of the lock. The
  code takes the queue in one block and clears it in another, and the reader may hold
  the lock in between. The schedule \<open>lost_update_schedule\<close> is such an interleaving
  of one pass of each thread over \<open>conn_A\<close> and \<open>conn_B\<close>, started on empty queues.
  After its fourth step the message read from \<open>conn_A\<close> is in the queue of \<open>conn_B\<close>.
  At its end that queue is empty and \<^verbatim>\<open>write\<close> has not been called at all, and the next
  pass of the writer calls nothing either: the message is lost. The same two passes one
  after the other deliver it to \<open>conn_B\<close>.
\<close>

theorem fan_out_between_take_and_clear_is_lost:
  "lost_update_schedule
     \<in> shuffles (reader_steps [conn_A, conn_B]) (writer_steps [conn_A, conn_B]) \<and>
   run_steps (take 4 lost_update_schedule) (relay_with [conn_A, conn_B] [(''A'', []), (''B'', [])])
     = Inr ((relay_with [conn_A, conn_B] [(''A'', []), (''B'', [''m1''])])
            \<lparr>calls := [ReadCall ''A'']\<rparr>) \<and>
   run_steps lost_update_schedule (relay_with [conn_A, conn_B] [(''A'', []), (''B'', [])])
     = Inr ((relay_with [conn_A, conn_B] [(''A'', []), (''B'', [])])
            \<lparr>calls := [ReadCall ''A'', ReadCall ''B'']\<rparr>) \<and>
   run_ticks [WriteTick]
       (final (run_steps lost_update_schedule
                 (relay_with [conn_A, conn_B] [(''A'', []), (''B'', [])])))
     = (relay_with [conn_A, conn_B] [(''A'', []), (''B'', [])])
         \<lparr>calls := [ReadCall ''A'', ReadCall ''B'']\<rparr> \<and>
   run_ticks [ReadTick, WriteTick] (relay_with [conn_A, conn_B] [(''A'', []), (''B'', [])])
     = (relay_with [conn_A, conn_B] [(''A'', []), (''B'', [])])
         \<lparr>calls := [ReadCall ''A'', ReadCall ''B'', WriteCall ''B'' [''m1'']]\<rparr>"
proof (intro conjI)
  show "lost_update_schedule
          \<in> shuffles (reader_steps [conn_A, conn_B]) (writer_steps [conn_A, conn_B])"
    by (simp add: lost_update_schedule_def reader_steps_def writer_steps_def)
qed (simp_all add: lost_update_schedule_def relay_with_def Barkr_read_def Barkr_write_def
             read_slot_def fan_out_def write_slot_def take_and_write_def clear_queue_def
             conn_A_def conn_B_def)

end
